theory Spec2Isabelle
  imports Main "HOL-Library.Signed_Division"
begin

section \<open>The stamp dispenser of StampDispenser.cpp\<close>

text \<open>
  The C++ type \<open>int\<close> is modelled by \<open>int\<close> together with the bounds of a 32-bit
  two's complement integer. Everything that is undefined behaviour or an abort in the
  source is a value of the type \<open>failure\<close>: a failed \<open>assert\<close>, a division by zero,
  a signed overflow and a vector access outside the vector. The assertions are modelled
  as compiled in (no \<open>NDEBUG\<close>): the source's own comments expect them to trigger.
\<close>

definition INT_MAX :: int where
  "INT_MAX = 2147483647"

definition INT_MIN :: int where
  "INT_MIN = - 2147483648"

definition is_int :: "int \<Rightarrow> bool" where
  "is_int x = (INT_MIN \<le> x \<and> x \<le> INT_MAX)"

datatype failure =
    AssertNumDenominations    \<comment> \<open>\<open>assert(0 < numStampDenominations)\<close>\<close>
  | AssertDescending          \<comment> \<open>\<open>assert(lastVal >= stampDenominations[i])\<close>\<close>
  | AssertNonNegative         \<comment> \<open>\<open>assert(stampDenominations[i] >= 0)\<close>\<close>
  | AssertOneFound            \<comment> \<open>\<open>assert(oneFound)\<close>\<close>
  | AssertRequest             \<comment> \<open>\<open>assert(request >= 0)\<close>\<close>
  | DivisionByZero            \<comment> \<open>\<open>request / 0\<close> or \<open>request % 0\<close>\<close>
  | SignedOverflow            \<comment> \<open>an \<open>int\<close> result outside \<open>INT_MIN .. INT_MAX\<close>\<close>
  | IndexOutOfRange           \<comment> \<open>\<open>memoizationVect[i]\<close> with \<open>i\<close> outside the vector\<close>

record StampDispenser =
  m_denominationVector :: "int list"

subsection \<open>ValidateInput\<close>

text \<open>
  The array \<open>stampDenominations\<close> of length \<open>numStampDenominations\<close> is a list. The loop
  carries \<open>oneFound\<close> and \<open>lastVal\<close>; the two assertions of its body are checked in the
  order of the source.
\<close>

fun ValidateInput_loop :: "int list \<Rightarrow> bool \<Rightarrow> int \<Rightarrow> failure + bool" where
  "ValidateInput_loop [] oneFound lastVal = Inr oneFound"
| "ValidateInput_loop (d # ds) oneFound lastVal =
     (if \<not> lastVal \<ge> d then Inl AssertDescending
      else if \<not> d \<ge> 0 then Inl AssertNonNegative
      else ValidateInput_loop ds (if 1 = d then True else oneFound) d)"

definition ValidateInput :: "int list \<Rightarrow> failure + bool" where
  "ValidateInput stampDenominations =
     (if \<not> 0 < length stampDenominations then Inl AssertNumDenominations
      else case ValidateInput_loop stampDenominations False INT_MAX of
             Inl e \<Rightarrow> Inl e
           | Inr oneFound \<Rightarrow> if \<not> oneFound then Inl AssertOneFound else Inr True)"

subsection \<open>The constructor\<close>

fun push_all :: "int list \<Rightarrow> int list \<Rightarrow> int list" where
  "push_all [] v = v"
| "push_all (d # ds) v = push_all ds (v @ [d])"

definition StampDispenser_new :: "int list \<Rightarrow> failure + StampDispenser" where
  "StampDispenser_new stampDenominations =
     (case ValidateInput stampDenominations of
        Inl e \<Rightarrow> Inl e
      | Inr ok \<Rightarrow>
          Inr \<lparr>m_denominationVector = (if ok then push_all stampDenominations [] else [])\<rparr>)"

subsection \<open>CalcNumStamps\<close>

text \<open>
  \<open>CalcNumStamps\<close> reads the denomination vector \<open>dv\<close> of the object and updates the
  memoization vector it received by reference: the model returns the value together with
  the vector after the call. \<open>CalcNumStamps_loop\<close> is the iterator loop, over the
  denominations not yet visited, carrying \<open>min_val\<close>. The C++ operators \<open>/\<close> and \<open>%\<close>
  truncate towards zero: they are \<open>sdiv\<close> and \<open>smod\<close>.
\<close>

text \<open>
  The remainder of a truncating division with a positive quotient is smaller in
  absolute value than the dividend: the recursion of \<open>CalcNumStamps\<close> descends on it.
\<close>

lemma smod_smaller:
  fixes request d :: int
  assumes "request sdiv d > 0"
  shows "\<bar>request smod d\<bar> < \<bar>request\<bar>"
proof -
  have "\<bar>request\<bar> div \<bar>d\<bar> \<noteq> 0"
    using assms by (auto simp: signed_divide_int_def)
  moreover have "\<bar>request\<bar> div \<bar>d\<bar> \<ge> 0"
    by (simp add: div_int_pos_iff)
  ultimately have q: "\<bar>request\<bar> div \<bar>d\<bar> > 0"
    by linarith
  then have d: "\<bar>d\<bar> > 0" and le: "\<bar>d\<bar> \<le> \<bar>request\<bar>"
    by (auto simp: pos_imp_zdiv_pos_iff intro: ccontr)
  have "\<bar>request smod d\<bar> = \<bar>request\<bar> mod \<bar>d\<bar>"
    using le d by (auto simp: signed_modulo_int_def sgn_if abs_mult)
  also have "\<dots> < \<bar>d\<bar>" using d by simp
  finally show ?thesis using le by simp
qed

function CalcNumStamps :: "int list \<Rightarrow> int \<Rightarrow> int list \<Rightarrow> failure + (int \<times> int list)"
  and CalcNumStamps_loop ::
    "int list \<Rightarrow> int \<Rightarrow> int list \<Rightarrow> int \<Rightarrow> int list \<Rightarrow> failure + (int \<times> int list)"
where
  "CalcNumStamps dv request memoizationVect =
     (if request < 0 \<or> int (length memoizationVect) \<le> request then Inl IndexOutOfRange
      else if memoizationVect ! nat request \<ge> 0
        then Inr (memoizationVect ! nat request, memoizationVect)
      else if 0 = request then Inr (0, memoizationVect)
      else case CalcNumStamps_loop dv request dv INT_MAX memoizationVect of
             Inl e \<Rightarrow> Inl e
           | Inr (min_val, memo) \<Rightarrow>
               if int (length memo) \<le> request then Inl IndexOutOfRange
               else Inr (min_val, memo[nat request := min_val]))"
| "CalcNumStamps_loop dv request [] min_val memoizationVect = Inr (min_val, memoizationVect)"
| "CalcNumStamps_loop dv request (d # rest) min_val memoizationVect =
     (if d = 0 then Inl DivisionByZero
      else if request = INT_MIN \<and> d = - 1 then Inl SignedOverflow
      else if request sdiv d > 0 then
        (case CalcNumStamps dv (request smod d) memoizationVect of
           Inl e \<Rightarrow> Inl e
         | Inr (sub, memo) \<Rightarrow>
             if request sdiv d + sub > INT_MAX then Inl SignedOverflow
             else CalcNumStamps_loop dv request rest (min min_val (request sdiv d + sub)) memo)
      else CalcNumStamps_loop dv request rest min_val memoizationVect)"
  by pat_completeness auto

termination
  by (relation "inv_image (less_than <*lex*> less_than)
        (\<lambda>x. case x of
           Inl (dv, request, memo) \<Rightarrow> (nat \<bar>request\<bar>, Suc (length dv))
         | Inr (dv, request, rest, min_val, memo) \<Rightarrow> (nat \<bar>request\<bar>, length rest))")
     (auto dest: smod_smaller)

subsection \<open>CalcNumStampsToFillRequest\<close>

text \<open>
  The loop that fills the memoization vector with \<open>request + 1\<close> entries \<open>-1\<close>. Its
  counter is an \<open>int\<close>: \<open>i++\<close> at \<open>INT_MAX\<close> overflows.
\<close>

function fill_memo :: "int \<Rightarrow> int \<Rightarrow> int list \<Rightarrow> failure + int list" where
  "fill_memo i request memoizationVect =
     (if i \<le> request then
        (if i = INT_MAX then Inl SignedOverflow
         else fill_memo (i + 1) request (memoizationVect @ [- 1]))
      else Inr memoizationVect)"
  by pat_completeness auto
termination
  by (relation "measure (\<lambda>(i, request, memo). nat (request + 1 - i))") auto

text \<open>
  The method is not \<open>const\<close>: the model returns the outcome of the call together with the
  object after the call.
\<close>

definition CalcNumStampsToFillRequest ::
  "StampDispenser \<Rightarrow> int \<Rightarrow> (failure + int) \<times> StampDispenser" where
  "CalcNumStampsToFillRequest this request =
     (if \<not> request \<ge> 0 then (Inl AssertRequest, this)
      else case fill_memo 0 request [] of
             Inl e \<Rightarrow> (Inl e, this)
           | Inr memoizationVect \<Rightarrow>
               (case CalcNumStamps (m_denominationVector this) request memoizationVect of
                  Inl e \<Rightarrow> (Inl e, this)
                | Inr (n, memo) \<Rightarrow> (Inr n, this)))"

text \<open>
  The equations of \<open>CalcNumStamps\<close> and \<open>fill_memo\<close> rewrite a call into a term with the
  same call inside: they are unfolded on request only.
\<close>

declare CalcNumStamps.simps [simp del] fill_memo.simps [simp del]

subsection \<open>The four checks of the specification\<close>

text \<open>
  The specification's words for a valid denomination set: non-empty, non-increasing,
  no negative value, and the value 1 present. \<open>check_failed e ds\<close> says that the check
  named by the failure \<open>e\<close> is one that \<open>ds\<close> violates.
\<close>

definition valid_denominations :: "int list \<Rightarrow> bool" where
  "valid_denominations ds =
     (ds \<noteq> [] \<and> sorted_wrt (\<ge>) ds \<and> list_all (\<lambda>d. d \<ge> 0) ds \<and> 1 \<in> set ds)"

fun check_failed :: "failure \<Rightarrow> int list \<Rightarrow> bool" where
  "check_failed AssertNumDenominations ds = (ds = [])"
| "check_failed AssertDescending ds = (\<not> sorted_wrt (\<ge>) ds)"
| "check_failed AssertNonNegative ds = (\<not> list_all (\<lambda>d. d \<ge> 0) ds)"
| "check_failed AssertOneFound ds = (1 \<notin> set ds)"
| "check_failed AssertRequest ds = False"
| "check_failed DivisionByZero ds = False"
| "check_failed SignedOverflow ds = False"
| "check_failed IndexOutOfRange ds = False"

subsection \<open>The recursions of the specification\<close>

text \<open>
  The specification's recursive case of the query: the minimum, over the denominations
  \<open>d \<le> request\<close>, of \<open>floor (request / d)\<close> plus the count for \<open>request mod d\<close>, and 0
  for the request 0. The recursion is on the remainder, which is smaller than the
  request for a positive denomination only: the minimum ranges over the positive
  denominations.
\<close>

function minCount_spec :: "int list \<Rightarrow> int \<Rightarrow> int" where
  "minCount_spec ds request =
     (if request \<le> 0 then 0
      else Min (set (map (\<lambda>d. request div d + minCount_spec ds (request mod d))
                         (filter (\<lambda>d. 0 < d \<and> d \<le> request) ds))))"
  by pat_completeness auto
termination
proof (relation "measure (\<lambda>(ds, request). nat request)")
  show "wf (measure (\<lambda>(ds, request). nat request))" by simp
next
  fix ds :: "int list" and request d :: int
  assume "\<not> request \<le> 0" and "d \<in> set (filter (\<lambda>d. 0 < d \<and> d \<le> request) ds)"
  then have "0 < d" and "d \<le> request" by simp_all
  then have "request mod d < request"
    using pos_mod_bound [of d request] by linarith
  moreover have "0 \<le> request mod d" using \<open>0 < d\<close> by simp
  ultimately show "((ds, request mod d), (ds, request)) \<in> measure (\<lambda>(ds, request). nat request)"
    by simp
qed

text \<open>
  The canonical recursion for the minimum number of coins that the specification
  contrasts with it: one unit of a usable denomination, plus the count for the rest.
\<close>

function canonical_minCount :: "int list \<Rightarrow> int \<Rightarrow> int" where
  "canonical_minCount ds request =
     (if request \<le> 0 then 0
      else Min (set (map (\<lambda>d. 1 + canonical_minCount ds (request - d))
                         (filter (\<lambda>d. 0 < d \<and> d \<le> request) ds))))"
  by pat_completeness auto
termination
  by (relation "measure (\<lambda>(ds, request). nat request)") auto

declare minCount_spec.simps [simp del] canonical_minCount.simps [simp del]

text \<open>
  \<open>candidates dv request rest\<close> are the values that the loop of \<open>CalcNumStamps\<close> takes the
  minimum of while it visits \<open>rest\<close>. \<open>memo_ok dv memo\<close> is the invariant of the
  memoization vector: an entry is negative (not computed yet) or the count of its index.
\<close>

definition candidates :: "int list \<Rightarrow> int \<Rightarrow> int list \<Rightarrow> int list" where
  "candidates dv request rest =
     map (\<lambda>d. request div d + minCount_spec dv (request mod d))
         (filter (\<lambda>d. 0 < d \<and> d \<le> request) rest)"

definition memo_ok :: "int list \<Rightarrow> int list \<Rightarrow> bool" where
  "memo_ok dv memo =
     list_all (\<lambda>i. memo ! i < 0 \<or> memo ! i = minCount_spec dv (int i)) [0 ..< length memo]"

section \<open>Validation and construction\<close>

lemma push_all_append: "push_all ds v = v @ ds"
  by (induction ds arbitrary: v) simp_all

lemma descending_Cons2:
  fixes a d :: int
  shows "sorted_wrt (\<ge>) (a # d # ds) = (a \<ge> d \<and> sorted_wrt (\<ge>) (d # ds))"
  by auto

lemma ValidateInput_loop_Inr:
  "(ValidateInput_loop ds oneFound lastVal = Inr r) =
     (sorted_wrt (\<ge>) (lastVal # ds) \<and> list_all (\<lambda>d. d \<ge> 0) ds \<and> r = (oneFound \<or> 1 \<in> set ds))"
proof (induction ds arbitrary: oneFound lastVal)
  case Nil
  show ?case by auto
next
  case (Cons d ds)
  show ?case
  proof (cases "lastVal \<ge> d \<and> d \<ge> 0")
    case True
    then show ?thesis
      using Cons.IH [of "if 1 = d then True else oneFound" d]
      by (simp only: descending_Cons2 ValidateInput_loop.simps) auto
  next
    case False
    then show ?thesis
      by (simp only: descending_Cons2 ValidateInput_loop.simps) auto
  qed
qed

lemma ValidateInput_loop_Inl:
  "ValidateInput_loop ds oneFound lastVal = Inl e \<Longrightarrow>
     (e = AssertDescending \<and> \<not> sorted_wrt (\<ge>) (lastVal # ds)) \<or>
     (e = AssertNonNegative \<and> \<not> list_all (\<lambda>d. d \<ge> 0) ds)"
proof (induction ds arbitrary: oneFound lastVal)
  case Nil
  then show ?case by simp
next
  case (Cons d ds)
  show ?case
  proof (cases "lastVal \<ge> d \<and> d \<ge> 0")
    case True
    with Cons.prems have "ValidateInput_loop ds (if 1 = d then True else oneFound) d = Inl e"
      by simp
    from Cons.IH [OF this] True show ?thesis
      by (simp only: descending_Cons2) auto
  next
    case False
    with Cons.prems show ?thesis
      by (simp only: descending_Cons2 ValidateInput_loop.simps) (auto split: if_splits)
  qed
qed

lemma sorted_below_INT_MAX:
  "list_all is_int ds \<Longrightarrow> sorted_wrt (\<ge>) (INT_MAX # ds) = sorted_wrt (\<ge>) ds"
  by (auto simp: list_all_iff is_int_def)

lemma StampDispenser_new_valid:
  assumes "list_all is_int ds" and "valid_denominations ds"
  shows "StampDispenser_new ds = Inr \<lparr>m_denominationVector = ds\<rparr>"
proof -
  have "sorted_wrt (\<ge>) (INT_MAX # ds)"
    using assms sorted_below_INT_MAX [of ds] by (simp add: valid_denominations_def)
  then have "ValidateInput_loop ds False INT_MAX = Inr True"
    using assms(2) by (simp only: ValidateInput_loop_Inr valid_denominations_def) simp
  then show ?thesis
    using assms(2)
    by (simp add: StampDispenser_new_def ValidateInput_def valid_denominations_def
        push_all_append)
qed

lemma StampDispenser_new_invalid:
  assumes "list_all is_int ds" and "\<not> valid_denominations ds"
  shows "\<exists>e. StampDispenser_new ds = Inl e \<and> check_failed e ds"
proof (cases "ds = []")
  case True
  then show ?thesis
    by (simp add: StampDispenser_new_def ValidateInput_def)
next
  case False
  note nonempty = this
  show ?thesis
  proof (cases "ValidateInput_loop ds False INT_MAX")
    case (Inl e)
    from ValidateInput_loop_Inl [OF this] have "check_failed e ds"
      using sorted_below_INT_MAX [OF assms(1)] by auto
    then show ?thesis
      using Inl nonempty by (simp add: StampDispenser_new_def ValidateInput_def)
  next
    case (Inr r)
    then have "sorted_wrt (\<ge>) ds" and "list_all (\<lambda>d. d \<ge> 0) ds" and "r = (1 \<in> set ds)"
      using sorted_below_INT_MAX [OF assms(1)]
      by (simp_all only: ValidateInput_loop_Inr) simp_all
    with assms(2) nonempty have "\<not> r" and "1 \<notin> set ds"
      by (simp_all add: valid_denominations_def)
    then show ?thesis
      using Inr nonempty by (simp add: StampDispenser_new_def ValidateInput_def)
  qed
qed

text \<open>
  Claim C2. For every array of C++ \<open>int\<close> values, the constructor yields a dispenser
  exactly when the four checks hold (non-empty, non-increasing, no negative value, a 1
  present), and the dispenser then stores the array unchanged; otherwise no dispenser is
  produced and the failed assertion names a check that the array violates.
\<close>

theorem create_succeeds_iff_valid:
  assumes "list_all is_int ds"
  shows "((\<exists>s. StampDispenser_new ds = Inr s) = valid_denominations ds) \<and>
         (valid_denominations ds \<longrightarrow>
            StampDispenser_new ds = Inr \<lparr>m_denominationVector = ds\<rparr>) \<and>
         (\<not> valid_denominations ds \<longrightarrow>
            (\<exists>e. StampDispenser_new ds = Inl e \<and> check_failed e ds))"
proof (cases "valid_denominations ds")
  case True
  with StampDispenser_new_valid [OF assms] show ?thesis by simp
next
  case False
  with StampDispenser_new_invalid [OF assms] show ?thesis by auto
qed

theorem create_succeeds_iff_valid_witness:
  "list_all is_int [6, 4, 1] \<and> valid_denominations [6, 4, 1] \<and>
   StampDispenser_new [6, 4, 1] = Inr \<lparr>m_denominationVector = [6, 4, 1]\<rparr> \<and>
   list_all is_int [4, 3, 2] \<and> \<not> valid_denominations [4, 3, 2] \<and>
   (\<exists>e. StampDispenser_new [4, 3, 2] = Inl e \<and> check_failed e [4, 3, 2])"
  using create_succeeds_iff_valid [of "[6, 4, 1]"] create_succeeds_iff_valid [of "[4, 3, 2]"]
  by (simp add: is_int_def INT_MAX_def INT_MIN_def valid_denominations_def)

section \<open>Queries\<close>

lemma fill_memo_zero: "fill_memo 0 0 [] = Inr [- 1]"
  by (simp add: fill_memo.simps INT_MAX_def)

lemma CalcNumStamps_zero: "CalcNumStamps dv 0 [- 1] = Inr (0, [- 1])"
  by (simp add: CalcNumStamps.simps)

text \<open>
  Claim C6. For every dispenser that the constructor produces, a request of 0 is answered
  with 0 stamps.
\<close>

theorem minCount_zero:
  assumes "StampDispenser_new ds = Inr s"
  shows "CalcNumStampsToFillRequest s 0 = (Inr 0, s)"
  by (simp add: CalcNumStampsToFillRequest_def fill_memo_zero CalcNumStamps_zero)

theorem minCount_zero_witness:
  "StampDispenser_new [6, 4, 1] = Inr \<lparr>m_denominationVector = [6, 4, 1]\<rparr> \<and>
   CalcNumStampsToFillRequest \<lparr>m_denominationVector = [6, 4, 1]\<rparr> 0 =
     (Inr 0, \<lparr>m_denominationVector = [6, 4, 1]\<rparr>)"
proof -
  have h: "StampDispenser_new [6, 4, 1] = Inr \<lparr>m_denominationVector = [6, 4, 1]\<rparr>"
    by (simp add: StampDispenser_new_def ValidateInput_def INT_MAX_def)
  show ?thesis using h minCount_zero [OF h] by simp
qed

text \<open>
  Claim C7. For every dispenser that the constructor produces and every negative request,
  the query fails on the assertion \<open>request >= 0\<close> before any work is done, and the
  dispenser is unchanged.
\<close>

theorem minCount_negative_request:
  assumes "StampDispenser_new ds = Inr s" and "request < 0"
  shows "CalcNumStampsToFillRequest s request = (Inl AssertRequest, s)"
  using assms(2) by (simp add: CalcNumStampsToFillRequest_def)

theorem minCount_negative_request_witness:
  "StampDispenser_new [6, 4, 1] = Inr \<lparr>m_denominationVector = [6, 4, 1]\<rparr> \<and> (- 1 :: int) < 0 \<and>
   CalcNumStampsToFillRequest \<lparr>m_denominationVector = [6, 4, 1]\<rparr> (- 1) =
     (Inl AssertRequest, \<lparr>m_denominationVector = [6, 4, 1]\<rparr>)"
proof -
  have h: "StampDispenser_new [6, 4, 1] = Inr \<lparr>m_denominationVector = [6, 4, 1]\<rparr>"
    by (simp add: StampDispenser_new_def ValidateInput_def INT_MAX_def)
  have n: "(- 1 :: int) < 0" by simp
  show ?thesis using h minCount_negative_request [OF h n] by simp
qed

text \<open>
  No branch of the query writes to the object: the dispenser after the call is the
  dispenser before it. The memoization vector is built inside the call and not kept.
\<close>

lemma query_leaves_dispenser: "snd (CalcNumStampsToFillRequest s request) = s"
  by (simp add: CalcNumStampsToFillRequest_def split: sum.splits prod.splits)

section \<open>The acceptance cases of main\<close>

text \<open>
  Claim C4. The dispenser built from the denominations 6, 4, 1 answers the request 8
  with 2 stamps (4 + 4), not with the 3 stamps of the choice 6 + 1 + 1: the candidate
  through 6 costs \<open>8 / 6\<close> stamps plus the 2 stamps for the remainder 2.
\<close>

theorem minCount_6_4_1_request_8:
  "StampDispenser_new [6, 4, 1] = Inr \<lparr>m_denominationVector = [6, 4, 1]\<rparr> \<and>
   CalcNumStampsToFillRequest \<lparr>m_denominationVector = [6, 4, 1]\<rparr> 8 =
     (Inr 2, \<lparr>m_denominationVector = [6, 4, 1]\<rparr>) \<and>
   CalcNumStampsToFillRequest \<lparr>m_denominationVector = [6, 4, 1]\<rparr> (8 smod 6) =
     (Inr 2, \<lparr>m_denominationVector = [6, 4, 1]\<rparr>) \<and>
   (8 :: int) sdiv 6 + 2 = 3"
  by (simp add: StampDispenser_new_def ValidateInput_def CalcNumStampsToFillRequest_def
      fill_memo.simps CalcNumStamps.simps
      INT_MAX_def INT_MIN_def signed_divide_int_def signed_modulo_int_def)

text \<open>
  Claim C8. The dispenser built from the denominations 90, 30, 24, 10, 6, 2, 1 answers
  the request 18 with 3 stamps.
\<close>

theorem minCount_90_30_24_10_6_2_1_request_18:
  "StampDispenser_new [90, 30, 24, 10, 6, 2, 1] =
     Inr \<lparr>m_denominationVector = [90, 30, 24, 10, 6, 2, 1]\<rparr> \<and>
   CalcNumStampsToFillRequest \<lparr>m_denominationVector = [90, 30, 24, 10, 6, 2, 1]\<rparr> 18 =
     (Inr 3, \<lparr>m_denominationVector = [90, 30, 24, 10, 6, 2, 1]\<rparr>)"
  by (simp add: StampDispenser_new_def ValidateInput_def CalcNumStampsToFillRequest_def
      fill_memo.simps CalcNumStamps.simps
      INT_MAX_def INT_MIN_def signed_divide_int_def signed_modulo_int_def)

section \<open>The query on denominations without 0\<close>

text \<open>
  On a valid denomination vector that does not contain 0, and for a request below
  \<open>INT_MAX\<close>, no division by zero, overflow or access outside the memoization vector
  occurs, and the query returns the value of the specification's recursion.
\<close>

lemma sdiv_nonneg_pos:
  fixes request d :: int
  assumes "0 \<le> request" and "0 < d"
  shows "request sdiv d = request div d" and "request smod d = request mod d"
  using assms by (auto simp: signed_divide_int_def signed_modulo_int_def sgn_if)

lemma div_plus_mod_le:
  fixes request d :: int
  assumes "0 \<le> request" and "0 < d"
  shows "request div d + request mod d \<le> request"
proof -
  have "0 \<le> request div d" using assms by (simp add: pos_imp_zdiv_nonneg_iff)
  then have "request div d \<le> d * (request div d)"
    using assms(2) by (simp add: mult_le_cancel_right1)
  then show ?thesis
    using mult_div_mod_eq [of d request] by linarith
qed

lemma memo_ok_iff:
  "memo_ok dv memo =
     (\<forall>i < length memo. memo ! i < 0 \<or> memo ! i = minCount_spec dv (int i))"
  by (simp add: memo_ok_def list_all_iff Ball_def)

lemma memo_okD:
  assumes "memo_ok dv memo" and "i < length memo" and "0 \<le> memo ! i"
  shows "memo ! i = minCount_spec dv (int i)"
  using assms unfolding memo_ok_iff by fastforce

lemma memo_ok_update:
  assumes "memo_ok dv memo"
  shows "memo_ok dv (memo[i := minCount_spec dv (int i)])"
  unfolding memo_ok_iff
proof (intro allI impI)
  fix j
  assume j: "j < length (memo[i := minCount_spec dv (int i)])"
  show "memo[i := minCount_spec dv (int i)] ! j < 0 \<or>
        memo[i := minCount_spec dv (int i)] ! j = minCount_spec dv (int j)"
  proof (cases "j = i")
    case True
    with j show ?thesis by simp
  next
    case False
    with j assms show ?thesis by (simp add: memo_ok_iff)
  qed
qed

lemma memo_ok_replicate: "memo_ok dv (replicate n (- 1))"
  by (simp add: memo_ok_iff)

lemma candidates_Nil: "candidates dv request [] = []"
  by (simp add: candidates_def)

lemma candidates_Cons:
  "candidates dv request (d # rest) =
     (if 0 < d \<and> d \<le> request
      then (request div d + minCount_spec dv (request mod d)) # candidates dv request rest
      else candidates dv request rest)"
  by (simp add: candidates_def)

lemma minCount_spec_candidates:
  "0 < request \<Longrightarrow> minCount_spec dv request = Min (set (candidates dv request dv))"
  by (subst minCount_spec.simps) (simp add: candidates_def)

lemma request_in_candidates:
  assumes "1 \<in> set dv" and "0 < request"
  shows "request \<in> set (candidates dv request dv)"
proof -
  have one: "1 \<in> set (filter (\<lambda>d. 0 < d \<and> d \<le> request) dv)"
    using assms by simp
  have "request = (\<lambda>d. request div d + minCount_spec dv (request mod d)) 1"
    by (simp add: minCount_spec.simps)
  then show ?thesis
    unfolding candidates_def set_map using one by (rule image_eqI)
qed

lemma minCount_spec_bounds:
  assumes "list_all (\<lambda>d. 0 < d) ds" and "1 \<in> set ds" and "0 \<le> request"
  shows "0 \<le> minCount_spec ds request \<and> minCount_spec ds request \<le> request"
  using assms
proof (induction ds request rule: minCount_spec.induct)
  case (1 ds request)
  show ?case
  proof (cases "request \<le> 0")
    case True
    with "1.prems" show ?thesis by (simp add: minCount_spec.simps)
  next
    case False
    then have positive: "0 < request" by simp
    let ?cs = "candidates ds request ds"
    have mem: "request \<in> set ?cs"
      using "1.prems"(2) positive by (rule request_in_candidates)
    have lower: "0 \<le> c" if "c \<in> set ?cs" for c
    proof -
      from that obtain d where d: "d \<in> set (filter (\<lambda>d. 0 < d \<and> d \<le> request) ds)"
        and c: "c = request div d + minCount_spec ds (request mod d)"
        by (auto simp: candidates_def)
      then have "0 < d" by simp
      then have "0 \<le> request mod d" by simp
      from "1.IH" [OF False d "1.prems"(1,2) this] have "0 \<le> minCount_spec ds (request mod d)"
        by simp
      moreover have "0 \<le> request div d"
        using \<open>0 < d\<close> False by (simp add: pos_imp_zdiv_nonneg_iff)
      ultimately show ?thesis using c by simp
    qed
    have "Min (set ?cs) \<le> request"
      using mem by (intro Min_le) simp_all
    moreover have "Min (set ?cs) \<in> set ?cs"
      using mem by (intro Min_in) auto
    then have "0 \<le> Min (set ?cs)"
      by (rule lower)
    ultimately show ?thesis
      using positive by (simp add: minCount_spec_candidates)
  qed
qed

lemma fold_min_candidates:
  assumes "1 \<in> set dv" and "0 < request" and "request \<le> INT_MAX"
  shows "fold min (candidates dv request dv) INT_MAX = minCount_spec dv request"
proof -
  let ?cs = "candidates dv request dv"
  have mem: "request \<in> set ?cs"
    using assms(1,2) by (rule request_in_candidates)
  then have ne: "set ?cs \<noteq> {}" by auto
  have "Min (set ?cs) \<le> request"
    using mem by (intro Min_le) simp_all
  then have le: "Min (set ?cs) \<le> INT_MAX"
    using assms(3) by simp
  have "fold min ?cs INT_MAX = Min (set (INT_MAX # ?cs))"
    by (simp only: Min.set_eq_fold)
  also have "\<dots> = min INT_MAX (Min (set ?cs))"
    using ne by simp
  also have "\<dots> = Min (set ?cs)"
    using le by simp
  finally show ?thesis
    using assms(2) by (simp add: minCount_spec_candidates)
qed

lemma CalcNumStamps_meets_spec:
  shows "list_all (\<lambda>d. 0 < d) dv \<Longrightarrow> 1 \<in> set dv \<Longrightarrow> 0 \<le> request \<Longrightarrow>
         request < int (length memo) \<Longrightarrow> request \<le> INT_MAX \<Longrightarrow> memo_ok dv memo \<Longrightarrow>
         \<exists>memo'. CalcNumStamps dv request memo = Inr (minCount_spec dv request, memo') \<and>
                 length memo' = length memo \<and> memo_ok dv memo'"
    and "list_all (\<lambda>d. 0 < d) dv \<Longrightarrow> 1 \<in> set dv \<Longrightarrow> list_all (\<lambda>d. 0 < d) rest \<Longrightarrow>
         0 < request \<Longrightarrow> request < int (length memo) \<Longrightarrow> request \<le> INT_MAX \<Longrightarrow>
         memo_ok dv memo \<Longrightarrow>
         \<exists>memo'. CalcNumStamps_loop dv request rest min_val memo =
                   Inr (fold min (candidates dv request rest) min_val, memo') \<and>
                 length memo' = length memo \<and> memo_ok dv memo'"
proof (induction dv request memo and dv request rest min_val memo
       rule: CalcNumStamps_CalcNumStamps_loop.induct)
  case (1 dv request memo)
  note range = \<open>0 \<le> request\<close> \<open>request < int (length memo)\<close>
  have idx: "nat request < length memo" "int (nat request) = request"
    using range by simp_all
  show ?case
  proof (cases "0 \<le> memo ! nat request")
    case True
    from memo_okD [OF \<open>memo_ok dv memo\<close> idx(1) True]
    have "memo ! nat request = minCount_spec dv request"
      by (simp only: idx(2))
    then show ?thesis
      using True range \<open>memo_ok dv memo\<close> by (subst CalcNumStamps.simps) simp
  next
    case False
    note unknown = this
    show ?thesis
    proof (cases "request = 0")
      case True
      then show ?thesis
        using unknown range \<open>memo_ok dv memo\<close>
        by (subst CalcNumStamps.simps) (simp add: minCount_spec.simps)
    next
      case False
      then have positive: "0 < request" using range by simp
      have guard: "\<not> (request < 0 \<or> int (length memo) \<le> request)"
        using range by simp
      from "1.IH" [OF guard unknown False [symmetric] \<open>list_all (\<lambda>d. 0 < d) dv\<close> \<open>1 \<in> set dv\<close>
          \<open>list_all (\<lambda>d. 0 < d) dv\<close> positive range(2) \<open>request \<le> INT_MAX\<close> \<open>memo_ok dv memo\<close>]
      obtain memo' where
        loop: "CalcNumStamps_loop dv request dv INT_MAX memo =
                 Inr (fold min (candidates dv request dv) INT_MAX, memo')"
        and len: "length memo' = length memo" and ok: "memo_ok dv memo'"
        by blast
      have val: "fold min (candidates dv request dv) INT_MAX = minCount_spec dv request"
        using \<open>1 \<in> set dv\<close> positive \<open>request \<le> INT_MAX\<close> by (rule fold_min_candidates)
      have "memo_ok dv (memo'[nat request := minCount_spec dv (int (nat request))])"
        using ok by (rule memo_ok_update)
      then have ok': "memo_ok dv (memo'[nat request := minCount_spec dv request])"
        by (simp only: idx(2))
      have "CalcNumStamps dv request memo =
              Inr (minCount_spec dv request, memo'[nat request := minCount_spec dv request])"
        using unknown False range len by (subst CalcNumStamps.simps) (simp add: loop val)
      then show ?thesis using ok' len by simp
    qed
  qed
next
  case (2 dv request min_val memo)
  then show ?case by (simp add: candidates_Nil)
next
  case (3 dv request d rest min_val memo)
  from \<open>list_all (\<lambda>d. 0 < d) (d # rest)\<close> have d: "0 < d" and rest: "list_all (\<lambda>d. 0 < d) rest"
    by simp_all
  have nonneg: "0 \<le> request" using \<open>0 < request\<close> by simp
  have ops: "request sdiv d = request div d" "request smod d = request mod d"
    using sdiv_nonneg_pos [OF nonneg d] by simp_all
  have g1: "d \<noteq> 0" using d by simp
  have g2: "\<not> (request = INT_MIN \<and> d = - 1)" using d by simp
  have dm: "d \<noteq> - 1" using d by simp
  show ?case
  proof (cases "d \<le> request")
    case True
    then have g3: "0 < request sdiv d"
      using d by (simp add: ops pos_imp_zdiv_pos_iff)
    have r0: "0 \<le> request smod d" using d by (simp add: ops)
    have "request mod d < d" using d by simp
    then have r1: "request smod d < int (length memo)" and r2: "request smod d \<le> INT_MAX"
      using True \<open>request < int (length memo)\<close> \<open>request \<le> INT_MAX\<close> by (simp_all add: ops)
    from "3.IH"(1) [OF g1 g2 g3 \<open>list_all (\<lambda>d. 0 < d) dv\<close> \<open>1 \<in> set dv\<close> r0 r1 r2
        \<open>memo_ok dv memo\<close>]
    obtain memo1 where
      sub: "CalcNumStamps dv (request smod d) memo =
              Inr (minCount_spec dv (request smod d), memo1)"
      and len1: "length memo1 = length memo" and ok1: "memo_ok dv memo1"
      by blast
    let ?sub = "minCount_spec dv (request smod d)"
    have "?sub \<le> request mod d"
      using minCount_spec_bounds [OF \<open>list_all (\<lambda>d. 0 < d) dv\<close> \<open>1 \<in> set dv\<close> r0]
      by (simp add: ops)
    then have "request div d + ?sub \<le> request"
      using div_plus_mod_le [OF nonneg d] by linarith
    then have g4: "\<not> INT_MAX < request sdiv d + ?sub"
      using \<open>request \<le> INT_MAX\<close> by (simp add: ops)
    have r1': "request < int (length memo1)"
      using \<open>request < int (length memo)\<close> len1 by simp
    from "3.IH"(2) [OF g1 g2 g3 sub refl g4 \<open>list_all (\<lambda>d. 0 < d) dv\<close> \<open>1 \<in> set dv\<close> rest
        \<open>0 < request\<close> r1' \<open>request \<le> INT_MAX\<close> ok1]
    obtain memo' where
      loop: "CalcNumStamps_loop dv request rest (min min_val (request sdiv d + ?sub)) memo1 =
               Inr (fold min (candidates dv request rest) (min min_val (request sdiv d + ?sub)),
                    memo')"
      and len: "length memo' = length memo1" and ok: "memo_ok dv memo'"
      by blast
    have "CalcNumStamps_loop dv request (d # rest) min_val memo =
            CalcNumStamps_loop dv request rest (min min_val (request sdiv d + ?sub)) memo1"
      using g1 dm g3 g4 by (simp add: sub)
    moreover have "fold min (candidates dv request (d # rest)) min_val =
            fold min (candidates dv request rest) (min min_val (request sdiv d + ?sub))"
      using d True by (simp add: candidates_Cons ops min.commute)
    ultimately show ?thesis
      using loop len len1 ok by simp
  next
    case False
    then have g3: "\<not> 0 < request sdiv d"
      using d by (simp add: ops pos_imp_zdiv_pos_iff)
    from "3.IH"(3) [OF g1 g2 g3 \<open>list_all (\<lambda>d. 0 < d) dv\<close> \<open>1 \<in> set dv\<close> rest
        \<open>0 < request\<close> \<open>request < int (length memo)\<close> \<open>request \<le> INT_MAX\<close> \<open>memo_ok dv memo\<close>]
    obtain memo' where
      loop: "CalcNumStamps_loop dv request rest min_val memo =
               Inr (fold min (candidates dv request rest) min_val, memo')"
      and len: "length memo' = length memo" and ok: "memo_ok dv memo'"
      by blast
    have "CalcNumStamps_loop dv request (d # rest) min_val memo =
            CalcNumStamps_loop dv request rest min_val memo"
      using g1 dm g3 by simp
    moreover have "candidates dv request (d # rest) = candidates dv request rest"
      using False by (simp add: candidates_Cons)
    ultimately show ?thesis
      using loop len ok by simp
  qed
qed

lemma fill_memo_replicate:
  "i \<le> request + 1 \<Longrightarrow> request < INT_MAX \<Longrightarrow>
   fill_memo i request memo = Inr (memo @ replicate (nat (request + 1 - i)) (- 1))"
proof (induction i request memo rule: fill_memo.induct)
  case (1 i request memo)
  show ?case
  proof (cases "i \<le> request")
    case True
    then have ne: "i \<noteq> INT_MAX" using "1.prems"(2) by simp
    have "nat (request + 1 - i) = Suc (nat (request + 1 - (i + 1)))"
      using True by simp
    then have "replicate (nat (request + 1 - i)) (- 1 :: int) =
               (- 1) # replicate (nat (request + 1 - (i + 1))) (- 1)"
      by simp
    moreover have "fill_memo (i + 1) request (memo @ [- 1]) =
          Inr ((memo @ [- 1]) @ replicate (nat (request + 1 - (i + 1))) (- 1))"
      using True ne "1.prems"(2) by (intro "1.IH") simp_all
    ultimately show ?thesis
      using True ne by (subst fill_memo.simps) simp
  next
    case False
    with "1.prems" have "i = request + 1" by simp
    then show ?thesis by (subst fill_memo.simps) simp
  qed
qed

lemma fill_memo_overflow:
  "i \<le> request \<Longrightarrow> request = INT_MAX \<Longrightarrow> fill_memo i request memo = Inl SignedOverflow"
proof (induction i request memo rule: fill_memo.induct)
  case (1 i request memo)
  show ?case
  proof (cases "i = INT_MAX")
    case True
    with "1.prems" show ?thesis by (subst fill_memo.simps) simp
  next
    case False
    with "1.prems" have "i + 1 \<le> request" by simp
    from "1.IH" [OF "1.prems"(1) False this "1.prems"(2)] show ?thesis
      using "1.prems"(1) False by (subst fill_memo.simps) simp
  qed
qed

lemma valid_without_zero:
  assumes "valid_denominations ds" and "0 \<notin> set ds"
  shows "list_all (\<lambda>d. 0 < d) ds" and "1 \<in> set ds"
proof -
  show "1 \<in> set ds" using assms(1) by (simp add: valid_denominations_def)
  have "\<forall>d \<in> set ds. 0 \<le> d"
    using assms(1) by (simp add: valid_denominations_def list_all_iff)
  with assms(2) have "\<forall>d \<in> set ds. 0 < d"
    by (metis order_le_less)
  then show "list_all (\<lambda>d. 0 < d) ds" by (simp add: list_all_iff)
qed

text \<open>
  The query returns the count of the specification's recursion and leaves the dispenser
  unchanged.
\<close>

theorem query_meets_spec:
  assumes "valid_denominations (m_denominationVector s)"
    and "0 \<notin> set (m_denominationVector s)"
    and "0 \<le> request" and "request < INT_MAX"
  shows "CalcNumStampsToFillRequest s request =
           (Inr (minCount_spec (m_denominationVector s) request), s)"
proof -
  let ?dv = "m_denominationVector s"
  let ?memo = "replicate (nat (request + 1)) (- 1 :: int)"
  have fill: "fill_memo 0 request [] = Inr ?memo"
    using fill_memo_replicate [of 0 request "[]"] assms(3,4) by simp
  have "request < int (length ?memo)" using assms(3) by simp
  from CalcNumStamps_meets_spec(1) [OF valid_without_zero [OF assms(1,2)] assms(3) this _
      memo_ok_replicate] assms(4)
  obtain memo' where "CalcNumStamps ?dv request ?memo = Inr (minCount_spec ?dv request, memo')"
    by auto
  then show ?thesis
    using assms(3) by (simp add: CalcNumStampsToFillRequest_def fill)
qed

text \<open>
  The results of the query satisfy the specification's recursive case: the result for
  \<open>request\<close> is the minimum over the denominations \<open>d \<le> request\<close> of
  \<open>request div d\<close> plus the result for \<open>request mod d\<close>.
\<close>

theorem query_recurrence:
  assumes "valid_denominations (m_denominationVector s)"
    and "0 \<notin> set (m_denominationVector s)"
    and "0 < request" and "request < INT_MAX"
  shows "\<exists>minCount.
           list_all (\<lambda>r. CalcNumStampsToFillRequest s r = (Inr (minCount r), s)) [0 .. request] \<and>
           minCount request =
             Min (set (map (\<lambda>d. request div d + minCount (request mod d))
                           (filter (\<lambda>d. d \<le> request) (m_denominationVector s))))"
proof (intro exI conjI)
  let ?dv = "m_denominationVector s"
  show "list_all (\<lambda>r. CalcNumStampsToFillRequest s r = (Inr (minCount_spec ?dv r), s))
          [0 .. request]"
    using query_meets_spec [OF assms(1,2)] assms(4) by (simp add: list_all_iff)
  have "filter (\<lambda>d. d \<le> request) ?dv = filter (\<lambda>d. 0 < d \<and> d \<le> request) ?dv"
    using valid_without_zero(1) [OF assms(1,2)]
    by (intro filter_cong) (auto simp: list_all_iff)
  then show "minCount_spec ?dv request =
          Min (set (map (\<lambda>d. request div d + minCount_spec ?dv (request mod d))
                        (filter (\<lambda>d. d \<le> request) ?dv)))"
    using assms(3) by (subst minCount_spec.simps) simp
qed

text \<open>
  Repeated queries return the same value: the first query returns the count of the
  specification's recursion and leaves the dispenser as it was, and a second query with
  the same request on the dispenser left by the first returns that count again.
\<close>

theorem query_repeated_without_zero:
  assumes "valid_denominations (m_denominationVector s)"
    and "0 \<notin> set (m_denominationVector s)"
    and "0 \<le> request" and "request < INT_MAX"
  shows "CalcNumStampsToFillRequest s request =
           (Inr (minCount_spec (m_denominationVector s) request), s) \<and>
         CalcNumStampsToFillRequest (snd (CalcNumStampsToFillRequest s request)) request =
           (Inr (minCount_spec (m_denominationVector s) request), s)"
proof -
  have first: "CalcNumStampsToFillRequest s request =
           (Inr (minCount_spec (m_denominationVector s) request), s)"
    using assms by (rule query_meets_spec)
  then have "snd (CalcNumStampsToFillRequest s request) = s" by simp
  with first show ?thesis by simp
qed

text \<open>
  At \<open>request = INT_MAX\<close> the counter of the loop that fills the memoization vector
  overflows.
\<close>

theorem query_overflow_at_INT_MAX:
  "CalcNumStampsToFillRequest s INT_MAX = (Inl SignedOverflow, s)"
  using fill_memo_overflow [of 0 INT_MAX "[]"]
  by (simp add: CalcNumStampsToFillRequest_def INT_MAX_def)

section \<open>A denomination 0\<close>

text \<open>
  While a denomination 0 is still to be visited, no entry of the memoization vector is
  ever written: every call for a positive request fails at \<open>request / 0\<close>, in the loop
  itself or in a recursive call, and the calls for the request 0 return without a write.
\<close>

lemma CalcNumStamps_with_zero:
  shows "list_all (\<lambda>d. 0 \<le> d) dv \<Longrightarrow> 0 \<in> set dv \<Longrightarrow> 0 < request \<Longrightarrow>
         request < int (length memo) \<Longrightarrow> request \<le> INT_MAX \<Longrightarrow> list_all (\<lambda>v. v < 0) memo \<Longrightarrow>
         CalcNumStamps dv request memo = Inl DivisionByZero"
    and "list_all (\<lambda>d. 0 \<le> d) dv \<Longrightarrow> 0 \<in> set dv \<Longrightarrow> list_all (\<lambda>d. 0 \<le> d) rest \<Longrightarrow>
         0 \<in> set rest \<Longrightarrow> 0 < request \<Longrightarrow> request < int (length memo) \<Longrightarrow>
         request \<le> INT_MAX \<Longrightarrow> list_all (\<lambda>v. v < 0) memo \<Longrightarrow>
         CalcNumStamps_loop dv request rest min_val memo = Inl DivisionByZero"
proof (induction dv request memo and dv request rest min_val memo
       rule: CalcNumStamps_CalcNumStamps_loop.induct)
  case (1 dv request memo)
  have idx: "nat request < length memo"
    using \<open>0 < request\<close> \<open>request < int (length memo)\<close> by simp
  then have unknown: "\<not> 0 \<le> memo ! nat request"
    using \<open>list_all (\<lambda>v. v < 0) memo\<close> by (auto simp: list_all_length)
  have guard: "\<not> (request < 0 \<or> int (length memo) \<le> request)"
    using \<open>0 < request\<close> \<open>request < int (length memo)\<close> by simp
  have ne: "0 \<noteq> request" using \<open>0 < request\<close> by simp
  from "1.IH" [OF guard unknown ne \<open>list_all (\<lambda>d. 0 \<le> d) dv\<close> \<open>0 \<in> set dv\<close>
      \<open>list_all (\<lambda>d. 0 \<le> d) dv\<close> \<open>0 \<in> set dv\<close> \<open>0 < request\<close> \<open>request < int (length memo)\<close>
      \<open>request \<le> INT_MAX\<close> \<open>list_all (\<lambda>v. v < 0) memo\<close>]
  have "CalcNumStamps_loop dv request dv INT_MAX memo = Inl DivisionByZero" .
  then show ?case
    using guard unknown ne by (subst CalcNumStamps.simps) simp
next
  case (2 dv request min_val memo)
  then show ?case by simp
next
  case (3 dv request d rest min_val memo)
  show ?case
  proof (cases "d = 0")
    case True
    then show ?thesis by simp
  next
    case False
    with \<open>list_all (\<lambda>d. 0 \<le> d) (d # rest)\<close> \<open>0 \<in> set (d # rest)\<close>
    have d: "0 < d" and rest: "list_all (\<lambda>d. 0 \<le> d) rest" and zero: "0 \<in> set rest"
      by auto
    have nonneg: "0 \<le> request" using \<open>0 < request\<close> by simp
    have ops: "request sdiv d = request div d" "request smod d = request mod d"
      using sdiv_nonneg_pos [OF nonneg d] by simp_all
    have g1: "d \<noteq> 0" using d by simp
    have g2: "\<not> (request = INT_MIN \<and> d = - 1)" using d by simp
    have dm: "d \<noteq> - 1" using d by simp
    show ?thesis
    proof (cases "d \<le> request")
      case True
      then have g3: "0 < request sdiv d"
        using d by (simp add: ops pos_imp_zdiv_pos_iff)
      have r0: "0 \<le> request smod d" using d by (simp add: ops)
      have "request mod d < d" using d by simp
      then have r1: "request smod d < int (length memo)" and r2: "request smod d \<le> INT_MAX"
        using True \<open>request < int (length memo)\<close> \<open>request \<le> INT_MAX\<close> by (simp_all add: ops)
      show ?thesis
      proof (cases "request smod d = 0")
        case True
        have "0 < int (length memo)"
          using \<open>0 < request\<close> \<open>request < int (length memo)\<close> by linarith
        then have "0 < length memo" by simp
        then have "\<not> 0 \<le> memo ! 0"
          using \<open>list_all (\<lambda>v. v < 0) memo\<close> by (auto simp: list_all_length)
        then have sub: "CalcNumStamps dv (request smod d) memo = Inr (0, memo)"
          using True \<open>0 < length memo\<close> by (subst CalcNumStamps.simps) simp
        have "request div d \<le> request"
          using div_plus_mod_le [OF nonneg d] True by (simp add: ops)
        then have g4: "\<not> INT_MAX < request sdiv d + 0"
          using \<open>request \<le> INT_MAX\<close> by (simp add: ops)
        from "3.IH"(2) [OF g1 g2 g3 sub refl g4 \<open>list_all (\<lambda>d. 0 \<le> d) dv\<close> \<open>0 \<in> set dv\<close> rest zero
            \<open>0 < request\<close> \<open>request < int (length memo)\<close> \<open>request \<le> INT_MAX\<close>
            \<open>list_all (\<lambda>v. v < 0) memo\<close>]
        have "CalcNumStamps_loop dv request rest (min min_val (request sdiv d + 0)) memo =
                Inl DivisionByZero" .
        then show ?thesis
          using g1 dm g3 g4 by (simp add: sub)
      next
        case False
        then have r0': "0 < request smod d" using r0 by simp
        from "3.IH"(1) [OF g1 g2 g3 \<open>list_all (\<lambda>d. 0 \<le> d) dv\<close> \<open>0 \<in> set dv\<close> r0' r1 r2
            \<open>list_all (\<lambda>v. v < 0) memo\<close>]
        have "CalcNumStamps dv (request smod d) memo = Inl DivisionByZero" .
        then show ?thesis
          using g1 dm g3 by simp
      qed
    next
      case False
      then have g3: "\<not> 0 < request sdiv d"
        using d by (simp add: ops pos_imp_zdiv_pos_iff)
      from "3.IH"(3) [OF g1 g2 g3 \<open>list_all (\<lambda>d. 0 \<le> d) dv\<close> \<open>0 \<in> set dv\<close> rest zero
          \<open>0 < request\<close> \<open>request < int (length memo)\<close> \<open>request \<le> INT_MAX\<close>
          \<open>list_all (\<lambda>v. v < 0) memo\<close>]
      have "CalcNumStamps_loop dv request rest min_val memo = Inl DivisionByZero" .
      then show ?thesis
        using g1 dm g3 by simp
    qed
  qed
qed

text \<open>
  On a valid denomination vector that contains 0, the query for every positive request
  below \<open>INT_MAX\<close> divides by zero.
\<close>

theorem query_with_zero_denomination:
  assumes "valid_denominations (m_denominationVector s)"
    and "0 \<in> set (m_denominationVector s)"
    and "0 < request" and "request < INT_MAX"
  shows "CalcNumStampsToFillRequest s request = (Inl DivisionByZero, s)"
proof -
  let ?dv = "m_denominationVector s"
  let ?memo = "replicate (nat (request + 1)) (- 1 :: int)"
  have fill: "fill_memo 0 request [] = Inr ?memo"
    using fill_memo_replicate [of 0 request "[]"] assms(3,4) by simp
  have nonneg: "list_all (\<lambda>d. 0 \<le> d) ?dv"
    using assms(1) by (simp add: valid_denominations_def)
  have "request < int (length ?memo)" using assms(3) by simp
  moreover have "list_all (\<lambda>v. v < 0) ?memo" by (simp add: list_all_iff)
  moreover have "request \<le> INT_MAX" using assms(4) by simp
  ultimately have "CalcNumStamps ?dv request ?memo = Inl DivisionByZero"
    using CalcNumStamps_with_zero(1) [OF nonneg assms(2,3)] by blast
  then show ?thesis
    using assms(3) by (simp add: CalcNumStampsToFillRequest_def fill)
qed

text \<open>
  Claim C10. Validation asks for denominations \<open>>= 0\<close> only, so it accepts the array
  1, 0. On the dispenser built from it the request 1 reaches \<open>request / 0\<close> in the loop:
  after the denomination 1 has been visited, the loop is at the denomination 0 with
  \<open>min_val = 1\<close>. The divisors of the query are not all nonzero.
\<close>

theorem zero_denomination_divides_by_zero:
  "StampDispenser_new [1, 0] = Inr \<lparr>m_denominationVector = [1, 0]\<rparr> \<and>
   CalcNumStamps_loop [1, 0] 1 [0] 1 [- 1, - 1] = Inl DivisionByZero \<and>
   CalcNumStampsToFillRequest \<lparr>m_denominationVector = [1, 0]\<rparr> 1 =
     (Inl DivisionByZero, \<lparr>m_denominationVector = [1, 0]\<rparr>)"
  by (simp add: StampDispenser_new_def ValidateInput_def CalcNumStampsToFillRequest_def
      fill_memo.simps CalcNumStamps.simps
      INT_MAX_def INT_MIN_def signed_divide_int_def signed_modulo_int_def)

text \<open>
  Claim C5. The denominations 1, 0 are a valid set in the specification's sense, with
  the candidate branch of the denomination 1 for the request 1, and the query for the
  request 1 ends in a failure, not in a value.
\<close>

theorem zero_denomination_no_value:
  "valid_denominations [1, 0] \<and>
   candidates [1, 0] 1 [1, 0] = [1] \<and>
   isl (fst (CalcNumStampsToFillRequest \<lparr>m_denominationVector = [1, 0]\<rparr> 1))"
  by (simp add: valid_denominations_def candidates_def minCount_spec.simps
      CalcNumStampsToFillRequest_def fill_memo.simps CalcNumStamps.simps
      INT_MAX_def INT_MIN_def signed_divide_int_def signed_modulo_int_def)

text \<open>
  Claim C1. For the valid denominations 1, 0 and the request 1, the denomination 0 is
  among the denominations \<open>d \<le> request\<close> over which the claimed minimum ranges, and
  \<open>CalcNumStamps\<close> on the memoization vector of the query fails with a division by zero
  instead of returning that minimum.
\<close>

theorem zero_denomination_no_minimum:
  "valid_denominations [1, 0] \<and>
   filter (\<lambda>d. d \<le> 1) [1, 0 :: int] = [1, 0] \<and>
   fill_memo 0 1 [] = Inr [- 1, - 1] \<and>
   CalcNumStamps [1, 0] 1 [- 1, - 1] = Inl DivisionByZero"
  by (simp add: valid_denominations_def fill_memo.simps CalcNumStamps.simps
      INT_MAX_def INT_MIN_def signed_divide_int_def signed_modulo_int_def)

text \<open>
  Claim C9. On the dispenser built from the valid denominations 1, 0, the query for the
  request 1 returns no value to repeat: the first call fails with a division by zero,
  and so does a second call on the dispenser, whose denomination vector is still 1, 0.
\<close>

theorem zero_denomination_no_repeated_value:
  "valid_denominations [1, 0] \<and> (0 :: int) \<le> 1 \<and>
   fst (CalcNumStampsToFillRequest \<lparr>m_denominationVector = [1, 0]\<rparr> 1) = Inl DivisionByZero \<and>
   m_denominationVector (snd (CalcNumStampsToFillRequest \<lparr>m_denominationVector = [1, 0]\<rparr> 1)) =
     [1, 0] \<and>
   fst (CalcNumStampsToFillRequest
          (snd (CalcNumStampsToFillRequest \<lparr>m_denominationVector = [1, 0]\<rparr> 1)) 1) =
     Inl DivisionByZero"
  by (simp add: valid_denominations_def CalcNumStampsToFillRequest_def
      fill_memo.simps CalcNumStamps.simps
      INT_MAX_def INT_MIN_def signed_divide_int_def signed_modulo_int_def)

section \<open>The specified recursion against the canonical one\<close>

lemma query_4_3_1_request_10:
  "CalcNumStampsToFillRequest \<lparr>m_denominationVector = [4, 3, 1]\<rparr> 10 =
     (Inr 4, \<lparr>m_denominationVector = [4, 3, 1]\<rparr>)"
  by (simp add: CalcNumStampsToFillRequest_def fill_memo.simps CalcNumStamps.simps
      INT_MAX_def INT_MIN_def signed_divide_int_def signed_modulo_int_def)

lemma minCount_spec_4_3_1_request_10: "minCount_spec [4, 3, 1] 10 = 4"
  by (simp add: minCount_spec.simps)

lemma canonical_minCount_4_3_1_request_10: "canonical_minCount [4, 3, 1] 10 = 3"
  by (simp add: canonical_minCount.simps)

lemma create_4_3_1:
  "StampDispenser_new [4, 3, 1] = Inr \<lparr>m_denominationVector = [4, 3, 1]\<rparr>"
  by (simp add: StampDispenser_new_def ValidateInput_def INT_MAX_def)

text \<open>
  Claim C3. There is a valid denomination set and a request on which the query, and the
  specified recursion with it, returns a count different from the canonical recursion,
  and more stamps than a selection of stamps from the set that sums to the request: the
  denominations 4, 3, 1 and the request 10, with 4 stamps against the 3 stamps 4 + 3 + 3.
\<close>

theorem specified_recursion_not_canonical:
  "\<exists>ds request n.
     valid_denominations ds \<and>
     StampDispenser_new ds = Inr \<lparr>m_denominationVector = ds\<rparr> \<and>
     CalcNumStampsToFillRequest \<lparr>m_denominationVector = ds\<rparr> request =
       (Inr n, \<lparr>m_denominationVector = ds\<rparr>) \<and>
     minCount_spec ds request = n \<and>
     n \<noteq> canonical_minCount ds request \<and>
     (\<exists>stamps. list_all (\<lambda>x. x \<in> set ds) stamps \<and> sum_list stamps = request \<and>
                int (length stamps) < n)"
proof (intro exI conjI)
  show "valid_denominations [4, 3, 1]"
    by (simp add: valid_denominations_def)
  show "StampDispenser_new [4, 3, 1] = Inr \<lparr>m_denominationVector = [4, 3, 1]\<rparr>"
    by (rule create_4_3_1)
  show "CalcNumStampsToFillRequest \<lparr>m_denominationVector = [4, 3, 1]\<rparr> 10 =
          (Inr 4, \<lparr>m_denominationVector = [4, 3, 1]\<rparr>)"
    by (rule query_4_3_1_request_10)
  show "minCount_spec [4, 3, 1] 10 = 4"
    by (rule minCount_spec_4_3_1_request_10)
  show "4 \<noteq> canonical_minCount [4, 3, 1] 10"
    by (simp add: canonical_minCount_4_3_1_request_10)
  show "list_all (\<lambda>x. x \<in> set [4, 3, 1]) [4, 3, 3 :: int]"
    by simp
  show "sum_list [4, 3, 3 :: int] = 10"
    by simp
  show "int (length [4, 3, 3 :: int]) < 4"
    by simp
qed

end
